theory Spec2Isabelle
  imports Complex_Main
begin

section \<open>JavaScript numbers\<close>

text \<open>
  The viewer (class \<open>Scatter\<close>) computes with JavaScript numbers, that is IEEE-754
  binary64 values. A finite number is modelled by the rational it denotes, and every
  arithmetic operation is the exact operation followed by rounding to the nearest
  representable value, ties to even (\<open>rnd\<close>). Infinities, NaN and the sign of zero are
  outside the model: it describes the computations whose operands and results are
  finite, which is what finite point coordinates, a canvas of non-zero size and a
  non-zero scale give. A division by zero, which JavaScript answers with an infinity
  or NaN, is therefore excluded by a hypothesis wherever a statement depends on it.
\<close>

type_synonym number = rat

function ilog2 :: "int \<Rightarrow> int" where
  "ilog2 n = (if n < 2 then 0 else 1 + ilog2 (n div 2))"
  by pat_completeness auto
termination
  by (relation "measure nat") auto

declare ilog2.simps [simp del]

definition pow2 :: "int \<Rightarrow> rat" where
  "pow2 e = (if 0 \<le> e then 2 ^ nat e else 1 / 2 ^ nat (- e))"

text \<open>\<open>expo q\<close> is the binary exponent of a non-zero \<open>q\<close>: \<open>2^e \<le> |q| < 2^(e+1)\<close>.\<close>

definition expo :: "rat \<Rightarrow> int" where
  "expo q = (case quotient_of \<bar>q\<bar> of (a, b) \<Rightarrow>
     (let e0 = ilog2 a - ilog2 b
      in if pow2 e0 \<le> \<bar>q\<bar> then e0 else e0 - 1))"

definition roundEven :: "rat \<Rightarrow> int" where
  "roundEven q = (let f = \<lfloor>q\<rfloor>; d = q - of_int f
     in if d < 1 / 2 then f else if 1 / 2 < d then f + 1
        else if even f then f else f + 1)"

text \<open>
  Rounding to a binary format with \<open>p\<close> significant bits whose smallest normal
  exponent is \<open>emin\<close> (below it the spacing stays that of the subnormal numbers).
\<close>

definition roundTo :: "nat \<Rightarrow> int \<Rightarrow> rat \<Rightarrow> rat" where
  "roundTo p emin q = (if q = 0 then 0
     else (let e = max (expo q) emin; u = pow2 (e - int p + 1)
           in of_int (roundEven (q / u)) * u))"

definition rnd :: "rat \<Rightarrow> number" where
  "rnd = roundTo 53 (- 1022)"

text \<open>Storing into a \<open>Float32Array\<close> rounds to binary32.\<close>

definition fround :: "number \<Rightarrow> number" where
  "fround = roundTo 24 (- 126)"

definition fadd :: "number \<Rightarrow> number \<Rightarrow> number" where
  "fadd a b = rnd (a + b)"

definition fsub :: "number \<Rightarrow> number \<Rightarrow> number" where
  "fsub a b = rnd (a - b)"

definition fmul :: "number \<Rightarrow> number \<Rightarrow> number" where
  "fmul a b = rnd (a * b)"

text \<open>
  \<open>fdiv\<close> is the division of the code for a divisor that is not zero. For the divisor
  zero JavaScript answers an infinity or NaN, where HOL gives \<open>a / 0 = 0\<close>; the
  statements below that depend on the value of a quotient assume that its divisor is
  not zero.
\<close>

definition fdiv :: "number \<Rightarrow> number \<Rightarrow> number" where
  "fdiv a b = rnd (a / b)"

text \<open>\<open>Math.floor\<close> of a finite number is exact.\<close>

definition mfloor :: "number \<Rightarrow> number" where
  "mfloor a = of_int \<lfloor>a\<rfloor>"

text \<open>
  \<open>Number.MAX_VALUE\<close> and \<open>Number.MIN_VALUE\<close>, the largest number and the smallest
  positive one. An operation whose rounded result is beyond \<open>MAX_VALUE\<close> answers an
  infinity in JavaScript; \<open>isFinite q\<close> says that the rounded result \<open>q\<close> is within
  range, so that the operation of the model is the operation of the code.
\<close>

definition maxValue :: number where
  "maxValue = (2 ^ 53 - 1) * 2 ^ 971"

definition minValue :: number where
  "minValue = pow2 (- 1074)"

definition isFinite :: "number \<Rightarrow> bool" where
  "isFinite q \<longleftrightarrow> \<bar>q\<bar> \<le> maxValue"

section \<open>Data model\<close>

text \<open>\<open>type Point = { id: number; x: number; y: number }\<close>; ids are integers.\<close>

record point =
  pt_id :: int
  pt_x :: number
  pt_y :: number


text \<open>
  The grid is a \<open>Map\<close> keyed by the string \<open>`${gx},${gy}`\<close>. Printing a finite
  number is injective and never prints a comma, so two keys are equal exactly when
  the two pairs of numbers are; a key is modelled by the pair.
\<close>

type_synonym cell = "number \<times> number"

text \<open>The fields of \<open>Scatter\<close> that its methods read and write.\<close>

record scatter =
  points :: "point list"
  data :: "number list"
  needsUpload :: bool
  idToIndex :: "int \<rightharpoonup> nat"
  scale :: number
  tx :: number
  ty :: number
  dragging :: bool
  lastX :: number
  lastY :: number
  selectedIndex :: int
  grid :: "cell \<rightharpoonup> nat list"

definition gridSize :: number where
  "gridSize = rnd (1 / 20)"

text \<open>The state the field initialisers give.\<close>

definition init :: scatter where
  "init = \<lparr> points = [], data = [], needsUpload = False, idToIndex = Map.empty,
     scale = 1, tx = 0, ty = 0, dragging = False, lastX = 0, lastY = 0,
     selectedIndex = - 1, grid = Map.empty \<rparr>"

text \<open>The result of \<open>canvas.getBoundingClientRect()\<close>, an input of the handlers.\<close>

record rect =
  rect_left :: number
  rect_top :: number
  rect_width :: number
  rect_height :: number

datatype error = TypeError | RangeError

section \<open>Renderer\<close>

datatype uniform = UScale | UTranslate | UPointSize | UColor

datatype glcall =
    Uniform1f uniform number
  | Uniform2f uniform number number
  | Uniform3f uniform number number number
  | BufferData "number list"
  | DrawArrays int int

text \<open>
  \<open>draw()\<close>, as the \<open>uniform*\<close>, \<open>bufferData\<close> and \<open>drawArrays\<close> calls it issues, in
  order, and the state it leaves. The calls that set up the frame (\<open>viewport\<close>,
  \<open>clearColor\<close>, \<open>clear\<close>, \<open>useProgram\<close>, the bindings) take nothing from the point
  store or the selection and are left out; the arguments of the calls are the numbers
  the code passes. \<open>Math.sqrt\<close> is the parameter \<open>msqrt\<close>.
\<close>

definition draw :: "(number \<Rightarrow> number) \<Rightarrow> scatter \<Rightarrow> glcall list \<times> scatter" where
  "draw msqrt s =
     (let ps = max (3 / 2) (min 6 (fdiv 3 (msqrt (scale s))))
      in ([Uniform2f UScale (scale s) (scale s),
           Uniform2f UTranslate (tx s) (ty s),
           Uniform1f UPointSize ps,
           Uniform3f UColor (rnd (13 / 20)) (3 / 4) (rnd (19 / 20))]
          @ (if needsUpload s then [BufferData (data s)] else [])
          @ [DrawArrays 0 (int (length (points s)))]
          @ (if 0 \<le> selectedIndex s \<and> selectedIndex s < int (length (points s))
             then [Uniform1f UPointSize (fmul ps (rnd (9 / 5))),
                   Uniform3f UColor (rnd (17 / 20)) (rnd (19 / 20)) 1,
                   DrawArrays (selectedIndex s) 1]
             else []),
          s\<lparr>needsUpload := False\<rparr>))"

text \<open>
  \<open>invalidate()\<close> calls \<open>draw()\<close>. The methods below keep the state that frame
  leaves (\<open>snd_draw\<close> below); the frame a later \<open>draw()\<close> shows is \<open>draw\<close> of the
  state they return.
\<close>

definition invalidate :: "scatter \<Rightarrow> scatter" where
  "invalidate s = s\<lparr>needsUpload := False\<rparr>"

section \<open>Spatial index\<close>

definition cellOf :: "point \<Rightarrow> cell" where
  "cellOf p = (mfloor (fdiv (pt_x p) gridSize), mfloor (fdiv (pt_y p) gridSize))"

text \<open>The body of the loops of \<open>rebuildGrid\<close> and \<open>addToGrid\<close>.\<close>

definition gridInsert :: "point list \<Rightarrow> nat \<Rightarrow> (cell \<rightharpoonup> nat list) \<Rightarrow> (cell \<rightharpoonup> nat list)" where
  "gridInsert pts i g =
     (let key = cellOf (pts ! i)
      in case g key of Some arr \<Rightarrow> g(key \<mapsto> arr @ [i]) | None \<Rightarrow> g(key \<mapsto> [i]))"

definition rebuildGrid :: "scatter \<Rightarrow> scatter" where
  "rebuildGrid s =
     s\<lparr>grid := fold (gridInsert (points s)) [0..<length (points s)] Map.empty\<rparr>"

definition addToGrid :: "nat \<Rightarrow> scatter \<Rightarrow> scatter" where
  "addToGrid startIndex s =
     s\<lparr>grid := fold (gridInsert (points s)) [startIndex..<length (points s)] (grid s)\<rparr>"

section \<open>Point store\<close>

text \<open>
  The arrays passed to \<open>setPoints\<close> and \<open>appendPoints\<close> are values here: the caller
  does not change an array after passing it (the application builds a fresh array for
  each \<open>setPoints\<close> call), and the array passed to \<open>appendPoints\<close> is not the one
  the viewer holds.
\<close>

text \<open>The body of the loop of \<open>setPoints\<close>, on the buffer and the id map.\<close>

definition setPointsStep ::
  "point list \<Rightarrow> nat \<Rightarrow> number list \<times> (int \<rightharpoonup> nat) \<Rightarrow> number list \<times> (int \<rightharpoonup> nat)" where
  "setPointsStep pts i = (\<lambda>(d, m).
     (d[i * 2 + 0 := fround (pt_x (pts ! i)), i * 2 + 1 := fround (pt_y (pts ! i))],
      m(pt_id (pts ! i) \<mapsto> i)))"

definition setPoints :: "point list \<Rightarrow> scatter \<Rightarrow> scatter" where
  "setPoints pts s =
     (let (d, m) = fold (setPointsStep pts) [0..<length pts]
                     (replicate (length pts * 2) 0, Map.empty);
          s1 = s\<lparr>points := pts, data := d, idToIndex := m\<rparr>;
          s2 = rebuildGrid s1;
          s3 = s2\<lparr>needsUpload := True\<rparr>
      in invalidate s3)"

text \<open>
  The body of the loop of \<open>appendPoints\<close>; \<open>n\<close> is \<open>this.points.length\<close> after the
  push.
\<close>

definition appendPointsStep ::
  "point list \<Rightarrow> nat \<Rightarrow> nat \<Rightarrow> number list \<times> (int \<rightharpoonup> nat) \<Rightarrow> number list \<times> (int \<rightharpoonup> nat)" where
  "appendPointsStep pts n i = (\<lambda>(d, m).
     (let idx = (n - length pts + i) * 2
      in (d[idx + 0 := fround (pt_x (pts ! i)), idx + 1 := fround (pt_y (pts ! i))],
          m(pt_id (pts ! i) \<mapsto> n - length pts + i))))"

text \<open>
  \<open>newData.set(this.data)\<close> copies the old buffer over the start of the new one and
  throws a RangeError when the old one is longer.
\<close>

definition typedArraySet :: "number list \<Rightarrow> number list \<Rightarrow> error + number list" where
  "typedArraySet target source =
     (if length target < length source then Inl RangeError
      else Inr (source @ drop (length source) target))"

definition appendPoints :: "point list \<Rightarrow> scatter \<Rightarrow> error + scatter" where
  "appendPoints pts s =
     (if length pts = 0 then Inr s
      else
        (let s1 = s\<lparr>points := points s @ pts\<rparr>;
             n = length (points s1)
         in case typedArraySet (replicate (n * 2) 0) (data s1) of
              Inl e \<Rightarrow> Inl e
            | Inr newData0 \<Rightarrow>
               (let (newData, m) = fold (appendPointsStep pts n) [0..<length pts]
                                     (newData0, idToIndex s1);
                    s2 = s1\<lparr>data := newData, idToIndex := m\<rparr>;
                    s3 = addToGrid (n - length pts) s2;
                    s4 = s3\<lparr>needsUpload := True\<rparr>
                in Inr (invalidate s4))))"

section \<open>Selection and camera\<close>

text \<open>\<open>setSelectedId(id: number | null)\<close>; \<open>None\<close> is \<open>null\<close>.\<close>

definition setSelectedId :: "int option \<Rightarrow> scatter \<Rightarrow> scatter" where
  "setSelectedId ido s =
     (case ido of
        None \<Rightarrow> invalidate (s\<lparr>selectedIndex := - 1\<rparr>)
      | Some k \<Rightarrow>
          invalidate (s\<lparr>selectedIndex :=
            (case idToIndex s k of Some idx \<Rightarrow> int idx | None \<Rightarrow> - 1)\<rparr>))"

text \<open>The variables the closure \<open>step\<close> of \<open>centerOnSelected\<close> captures.\<close>

record animation =
  startTx :: number
  startTy :: number
  targetTx :: number
  targetTy :: number
  t0 :: number

text \<open>
  \<open>centerOnSelected(smooth)\<close>; \<open>now\<close> is \<open>performance.now()\<close> at the call. It returns
  the new state and, on the eased path, the animation whose first frame it requests.
  Reading \<open>p.x\<close> of \<open>this.points[this.selectedIndex]\<close> beyond the end of the array
  throws a TypeError.
\<close>

definition centerOnSelected ::
  "bool \<Rightarrow> number \<Rightarrow> scatter \<Rightarrow> error + scatter \<times> animation option" where
  "centerOnSelected smooth now s =
     (if selectedIndex s < 0 then Inr (s, None)
      else if int (length (points s)) \<le> selectedIndex s then Inl TypeError
      else
        (let p = points s ! nat (selectedIndex s);
             targetTx' = fmul (- pt_x p) (scale s);
             targetTy' = fmul (- pt_y p) (scale s)
         in if \<not> smooth
            then Inr (invalidate (s\<lparr>tx := targetTx', ty := targetTy'\<rparr>), None)
            else Inr (s, Some \<lparr> startTx = tx s, startTy = ty s,
                                targetTx = targetTx', targetTy = targetTy', t0 = now \<rparr>)))"

text \<open>
  One run of the frame callback \<open>step\<close> at time \<open>now\<close>: the new state, and whether
  it requests another frame.
\<close>

definition animStep :: "animation \<Rightarrow> number \<Rightarrow> scatter \<Rightarrow> scatter \<times> bool" where
  "animStep a now s =
     (let t = min 1 (fdiv (fsub now (t0 a)) 150);
          ease = fmul t (fsub 2 t);
          s1 = s\<lparr>tx := fadd (startTx a) (fmul (fsub (targetTx a) (startTx a)) ease)\<rparr>;
          s2 = s1\<lparr>ty := fadd (startTy a) (fmul (fsub (targetTy a) (startTy a)) ease)\<rparr>
      in (invalidate s2, t < 1))"

section \<open>View transform\<close>

text \<open>
  The conversions that \<open>pick\<close> and the wheel handler write inline: world to NDC
  (\<open>p.x * this.scale + this.tx\<close>), NDC to world (\<open>(sx - this.tx) / this.scale\<close>) and
  CSS pixels to NDC (\<open>(px / rect.width) * 2 - 1\<close>, with the Y axis flipped).
\<close>

definition worldToNdc :: "scatter \<Rightarrow> number \<times> number \<Rightarrow> number \<times> number" where
  "worldToNdc s = (\<lambda>(wx, wy).
     (fadd (fmul wx (scale s)) (tx s), fadd (fmul wy (scale s)) (ty s)))"

definition ndcToWorld :: "scatter \<Rightarrow> number \<times> number \<Rightarrow> number \<times> number" where
  "ndcToWorld s = (\<lambda>(nx, ny).
     (fdiv (fsub nx (tx s)) (scale s), fdiv (fsub ny (ty s)) (scale s)))"

definition pixelToNdc :: "rect \<Rightarrow> number \<times> number \<Rightarrow> number \<times> number" where
  "pixelToNdc rc = (\<lambda>(px, py).
     (fsub (fmul (fdiv px (rect_width rc)) 2) 1,
      - (fsub (fmul (fdiv py (rect_height rc)) 2) 1)))"

section \<open>Interaction\<close>

text \<open>
  The handlers \<open>attachEvents\<close> installs for \<open>mousedown\<close>, \<open>mouseup\<close>, \<open>mousemove\<close>
  and \<open>wheel\<close>, on the fields of the event they read. The \<open>click\<close> handler calls
  \<open>pick\<close>, modelled below, with \<open>clientX - rect.left\<close> and \<open>clientY - rect.top\<close>.
\<close>

definition mousedown :: "int \<Rightarrow> number \<Rightarrow> number \<Rightarrow> scatter \<Rightarrow> scatter" where
  "mousedown button clientX clientY s =
     (if button = 2 then s\<lparr>dragging := True, lastX := clientX, lastY := clientY\<rparr> else s)"

definition mouseup :: "scatter \<Rightarrow> scatter" where
  "mouseup s = s\<lparr>dragging := False\<rparr>"

definition mousemove :: "rect \<Rightarrow> number \<Rightarrow> number \<Rightarrow> scatter \<Rightarrow> scatter" where
  "mousemove rc clientX clientY s =
     (if \<not> dragging s then s
      else
        (let dx = fsub clientX (lastX s);
             dy = fsub clientY (lastY s);
             s1 = s\<lparr>lastX := clientX, lastY := clientY\<rparr>;
             nx = fdiv (fmul 2 dx) (rect_width rc);
             ny = fdiv (fmul (- 2) dy) (rect_height rc);
             s2 = s1\<lparr>tx := fadd (tx s1) nx\<rparr>;
             s3 = s2\<lparr>ty := fadd (ty s2) ny\<rparr>
         in invalidate s3))"

text \<open>
  The wheel handler. \<open>Math.pow\<close> is the parameter \<open>mpow\<close>; \<open>Math.sign\<close> is \<open>sgn\<close>.
\<close>

definition wheel ::
  "(number \<Rightarrow> number \<Rightarrow> number) \<Rightarrow> rect \<Rightarrow> number \<Rightarrow> number \<Rightarrow> number \<Rightarrow> scatter \<Rightarrow> scatter" where
  "wheel mpow rc clientX clientY deltaY s =
     (let delta = sgn deltaY;
          zoom = mpow (rnd (11 / 10)) (- delta);
          (sx, sy) = pixelToNdc rc (fsub clientX (rect_left rc), fsub clientY (rect_top rc));
          (wx, wy) = ndcToWorld s (sx, sy);
          s1 = s\<lparr>scale := fmul (scale s) zoom\<rparr>;
          s2 = s1\<lparr>tx := fsub sx (fmul wx (scale s1))\<rparr>;
          s3 = s2\<lparr>ty := fsub sy (fmul wy (scale s2))\<rparr>
      in invalidate s3)"

section \<open>Picking\<close>














section \<open>Reachable states\<close>

text \<open>
  The states of a viewer: the initial one and those any call of a public method or
  any event handler leads to. A frame of an animation may run in any later state;
  the relation allows it with any animation record, which only adds states.
\<close>

inductive reachable :: "scatter \<Rightarrow> bool" where
  r_init: "reachable init"
| r_setPoints: "reachable s \<Longrightarrow> reachable (setPoints pts s)"
| r_appendPoints: "reachable s \<Longrightarrow> appendPoints pts s = Inr s' \<Longrightarrow> reachable s'"
| r_setSelectedId: "reachable s \<Longrightarrow> reachable (setSelectedId ido s)"
| r_centerOnSelected:
    "reachable s \<Longrightarrow> centerOnSelected smooth now s = Inr (s', a) \<Longrightarrow> reachable s'"
| r_animStep: "reachable s \<Longrightarrow> reachable (fst (animStep a now s))"
| r_mousedown: "reachable s \<Longrightarrow> reachable (mousedown button clientX clientY s)"
| r_mouseup: "reachable s \<Longrightarrow> reachable (mouseup s)"
| r_mousemove: "reachable s \<Longrightarrow> reachable (mousemove rc clientX clientY s)"
| r_wheel: "reachable s \<Longrightarrow> reachable (wheel mpow rc clientX clientY deltaY s)"

section \<open>Notions used to state the properties\<close>

text \<open>
  \<open>lastOcc ps n k i\<close>: among the first \<open>n\<close> points of \<open>ps\<close>, \<open>i\<close> is the last index
  whose point has id \<open>k\<close>.
\<close>

definition lastOcc :: "point list \<Rightarrow> nat \<Rightarrow> int \<Rightarrow> nat \<Rightarrow> bool" where
  "lastOcc ps n k i \<longleftrightarrow>
     i < n \<and> pt_id (ps ! i) = k \<and> (\<forall>j. i < j \<and> j < n \<longrightarrow> pt_id (ps ! j) \<noteq> k)"

definition mapInv :: "point list \<Rightarrow> nat \<Rightarrow> (int \<rightharpoonup> nat) \<Rightarrow> bool" where
  "mapInv ps n m \<longleftrightarrow> (\<forall>k i. m k = Some i \<longleftrightarrow> lastOcc ps n k i)"

definition cellSet :: "(cell \<rightharpoonup> nat list) \<Rightarrow> cell \<Rightarrow> nat set" where
  "cellSet g k = (case g k of None \<Rightarrow> {} | Some arr \<Rightarrow> set arr)"

definition gridInv :: "point list \<Rightarrow> nat \<Rightarrow> (cell \<rightharpoonup> nat list) \<Rightarrow> bool" where
  "gridInv ps n g \<longleftrightarrow> (\<forall>k. cellSet g k = {i. i < n \<and> cellOf (ps ! i) = k})"

definition storeInv :: "scatter \<Rightarrow> bool" where
  "storeInv s \<longleftrightarrow>
     length (data s) = 2 * length (points s) \<and>
     mapInv (points s) (length (points s)) (idToIndex s) \<and>
     gridInv (points s) (length (points s)) (grid s)"






text \<open>
  The call \<open>gl.uniform3f(this.uColor, 0.85, 0.95, 1.0)\<close> that sets the highlight colour
  of the overlay; \<open>draw\<close> issues it nowhere else.
\<close>

definition highlightCall :: glcall where
  "highlightCall = Uniform3f UColor (rnd (17 / 20)) (rnd (19 / 20)) 1"

text \<open>
  No operation overflows in the round trip of one world coordinate \<open>x\<close> through
  \<open>x * k + t\<close> and \<open>(n - t) / k\<close>, for the scale \<open>k\<close> and the translation \<open>t\<close>.
\<close>

definition transformFinite :: "number \<Rightarrow> number \<Rightarrow> number \<Rightarrow> bool" where
  "transformFinite k t x \<longleftrightarrow>
     list_all isFinite
       [fmul x k, fadd (fmul x k) t, fsub (fadd (fmul x k) t) t,
        fdiv (fsub (fadd (fmul x k) t) t) k]"

text \<open>
  No operation overflows in the wheel handler, nor in computing the world point under
  the cursor once the handler has run: the value of \<open>Math.pow\<close>, the cursor in
  pixels and in NDC, the world point before, the new scale and translation, and the
  world point after.
\<close>

definition wheelFinite ::
  "(number \<Rightarrow> number \<Rightarrow> number) \<Rightarrow> rect \<Rightarrow> number \<Rightarrow> number \<Rightarrow> number \<Rightarrow> scatter \<Rightarrow> bool" where
  "wheelFinite mpow rc clientX clientY deltaY s \<longleftrightarrow>
     (let px = fsub clientX (rect_left rc);
          py = fsub clientY (rect_top rc);
          c = pixelToNdc rc (px, py);
          w = ndcToWorld s c;
          s' = wheel mpow rc clientX clientY deltaY s;
          w' = ndcToWorld s' c
      in list_all isFinite
           [mpow (rnd (11 / 10)) (- sgn deltaY),
            px, fdiv px (rect_width rc), fmul (fdiv px (rect_width rc)) 2, fst c,
            py, fdiv py (rect_height rc), fmul (fdiv py (rect_height rc)) 2, snd c,
            fsub (fst c) (tx s), fst w, fsub (snd c) (ty s), snd w,
            scale s',
            fmul (fst w) (scale s'), tx s', fmul (snd w) (scale s'), ty s',
            fsub (fst c) (tx s'), fst w', fsub (snd c) (ty s'), snd w'])"


section \<open>Example inputs\<close>

text \<open>
  The two points of the duplicate-id example, the viewer after \<open>setPoints\<close> with
  them, and that viewer after selecting id 1.
\<close>

definition twoPoints :: "point list" where
  "twoPoints = [\<lparr>pt_id = 1, pt_x = 0, pt_y = 0\<rparr>, \<lparr>pt_id = 1, pt_x = 1 / 2, pt_y = 1 / 2\<rparr>]"

definition exStore :: scatter where
  "exStore = setPoints twoPoints init"

definition exSelected :: scatter where
  "exSelected = setSelectedId (Some 1) exStore"

text \<open>
  The two points of the pick example, \<open>[{id:7,x:0,y:0},{id:8,x:0.9,y:0.9}]\<close>, and the
  viewer after \<open>setPoints\<close> with them.
\<close>

definition pickPoints :: "point list" where
  "pickPoints = [\<lparr>pt_id = 7, pt_x = 0, pt_y = 0\<rparr>,
                 \<lparr>pt_id = 8, pt_x = rnd (9 / 10), pt_y = rnd (9 / 10)\<rparr>]"



text \<open>
  A \<open>Math.pow\<close> for the three exponents the wheel handler passes: \<open>x^1 = x\<close>,
  \<open>x^0 = 1\<close> and \<open>x^(-1)\<close>, the rounded reciprocal.
\<close>

definition wheelPow :: "number \<Rightarrow> number \<Rightarrow> number" where
  "wheelPow b e = (if e = 1 then b else if e = 0 then 1 else fdiv 1 b)"

text \<open>
  A canvas rectangle of 800 by 600 and one of 1024 by 768 CSS pixels at the origin.
\<close>

definition rc800 :: rect where
  "rc800 = \<lparr> rect_left = 0, rect_top = 0, rect_width = 800, rect_height = 600 \<rparr>"

definition rc1024 :: rect where
  "rc1024 = \<lparr> rect_left = 0, rect_top = 0, rect_width = 1024, rect_height = 768 \<rparr>"

text \<open>
  The viewer after a right-button drag by 200 pixels to the right on the canvas of
  800 pixels, which pans by \<open>2 * 200 / 800 = 0.5\<close>; the viewer with the single point
  \<open>{id: 1, x: 0.1, y: 0}\<close> selected after that pan; the animation that
  \<open>centerOnSelected()\<close> starts there at time 0.
\<close>

definition exPanned :: scatter where
  "exPanned = mousemove rc800 200 0 (mousedown 2 0 0 init)"

definition exTenth :: scatter where
  "exTenth = setSelectedId (Some 1)
     (setPoints [\<lparr>pt_id = 1, pt_x = rnd (1 / 10), pt_y = 0\<rparr>] exPanned)"

definition exAnim :: animation where
  "exAnim = \<lparr> startTx = 1 / 2, startTy = 0,
              targetTx = - rnd (1 / 10), targetTy = 0, t0 = 0 \<rparr>"

text \<open>
  The viewer after a wheel step that zooms in, on the canvas of 1024 pixels in its
  initial view with the cursor at \<open>(clientX, 384)\<close>, and that cursor position in NDC.
\<close>

definition exWheel :: "number \<Rightarrow> scatter" where
  "exWheel clientX = wheel wheelPow rc1024 clientX 384 (- 100) init"

definition exCursor :: "number \<Rightarrow> number \<times> number" where
  "exCursor clientX =
     pixelToNdc rc1024 (fsub clientX (rect_left rc1024), fsub 384 (rect_top rc1024))"

section \<open>Properties of rounding\<close>

text \<open>
  The binary exponent is what its name says, rounding an integer leaves it,
  rounding is idempotent, and rounding moves a value by at most the relative error
  \<open>2^-53\<close> plus half of \<open>Number.MIN_VALUE\<close>, which covers the subnormal range.
\<close>

lemma pow2_powi: "pow2 e = 2 powi e"
  by (simp add: pow2_def power_int_def power_one_over inverse_eq_divide)

lemma pow2_pos: "0 < pow2 e"
  by (simp add: pow2_powi zero_less_power_int)

lemma pow2_add: "pow2 (a + b) = pow2 a * pow2 b"
  by (simp add: pow2_powi power_int_add)

lemma pow2_less_iff: "pow2 a < pow2 b \<longleftrightarrow> a < b"
proof
  assume "a < b"
  then show "pow2 a < pow2 b"
    by (simp add: pow2_powi power_int_strict_increasing)
next
  assume l: "pow2 a < pow2 b"
  show "a < b"
  proof (rule ccontr)
    assume "\<not> a < b"
    then have "pow2 b \<le> pow2 a"
      by (simp add: pow2_powi power_int_increasing)
    with l show False by simp
  qed
qed

lemma pow2_le_iff: "pow2 a \<le> pow2 b \<longleftrightarrow> a \<le> b"
  using pow2_less_iff [of b a] by (simp add: not_less [symmetric])

lemma pow2_nat: "0 \<le> e \<Longrightarrow> pow2 e = of_int (2 ^ nat e)"
  by (simp add: pow2_def)

lemma ilog2_nonneg: "0 \<le> ilog2 n"
  by (induction n rule: ilog2.induct) (subst ilog2.simps, simp)

lemma ilog2_bounds: "1 \<le> n \<Longrightarrow> 2 ^ nat (ilog2 n) \<le> n \<and> n < 2 * 2 ^ nat (ilog2 n)"
proof (induction n rule: ilog2.induct)
  case (1 n)
  show ?case
  proof (cases "n < 2")
    case True
    with 1(2) have "n = 1" by simp
    then show ?thesis by (simp add: ilog2.simps)
  next
    case False
    then have "1 \<le> n div 2" by simp
    with 1(1) False have IH: "2 ^ nat (ilog2 (n div 2)) \<le> n div 2"
      "n div 2 < 2 * 2 ^ nat (ilog2 (n div 2))" by simp_all
    from False have eq: "ilog2 n = 1 + ilog2 (n div 2)"
      by (subst ilog2.simps) simp
    have "nat (1 + ilog2 (n div 2)) = Suc (nat (ilog2 (n div 2)))"
      using ilog2_nonneg [of "n div 2"] by simp
    with IH eq show ?thesis by simp linarith
  qed
qed

lemma ilog2_pow2:
  assumes "1 \<le> n"
  shows "pow2 (ilog2 n) \<le> of_int n \<and> of_int n < pow2 (ilog2 n + 1)"
proof -
  have nn: "0 \<le> ilog2 n" by (rule ilog2_nonneg)
  then have s: "nat (ilog2 n + 1) = Suc (nat (ilog2 n))" by simp
  from nn have e1: "pow2 (ilog2 n) = of_int (2 ^ nat (ilog2 n))"
    by (rule pow2_nat)
  from nn have e2: "pow2 (ilog2 n + 1) = of_int (2 * 2 ^ nat (ilog2 n))"
    by (simp add: pow2_nat s)
  from ilog2_bounds [OF assms] show ?thesis
    unfolding e1 e2 of_int_le_iff of_int_less_iff .
qed

lemma expo_bounds:
  assumes "q \<noteq> 0"
  shows "pow2 (expo q) \<le> \<bar>q\<bar> \<and> \<bar>q\<bar> < pow2 (expo q + 1)"
proof -
  obtain a b where ab: "quotient_of \<bar>q\<bar> = (a, b)" by (cases "quotient_of \<bar>q\<bar>")
  then have b: "0 < b" and q: "\<bar>q\<bar> = of_int a / of_int b"
    by (auto dest: quotient_of_denom_pos quotient_of_div)
  from assms have "0 < \<bar>q\<bar>" by simp
  with q b have a: "1 \<le> a"
    by (simp add: zero_less_divide_iff) 
  let ?la = "ilog2 a" and ?lb = "ilog2 b"
  from ilog2_pow2 [OF a] have A: "pow2 ?la \<le> of_int a" "of_int a < pow2 (?la + 1)"
    by simp_all
  from b have "1 \<le> b" by simp
  from ilog2_pow2 [OF this] have B: "pow2 ?lb \<le> of_int b" "of_int b < pow2 (?lb + 1)"
    by simp_all
  have bpos: "(0::rat) < of_int b" using b by simp
  have lo: "pow2 (?la - ?lb - 1) < \<bar>q\<bar>"
  proof -
    have "pow2 (?la - ?lb - 1) * of_int b < pow2 (?la - ?lb - 1) * pow2 (?lb + 1)"
      using B(2) pow2_pos by simp
    also have "\<dots> = pow2 ?la" by (simp flip: pow2_add)
    also have "\<dots> \<le> of_int a" by (rule A(1))
    finally show ?thesis using bpos by (simp add: q pos_less_divide_eq)
  qed
  have hi: "\<bar>q\<bar> < pow2 (?la - ?lb + 1)"
  proof -
    have "of_int a < pow2 (?la + 1)" by (rule A(2))
    also have "\<dots> = pow2 (?la - ?lb + 1) * pow2 ?lb" by (simp flip: pow2_add)
    also have "\<dots> \<le> pow2 (?la - ?lb + 1) * of_int b"
      using B(1) pow2_pos [of "?la - ?lb + 1"] by simp
    finally show ?thesis using bpos by (simp add: q pos_divide_less_eq)
  qed
  show ?thesis
  proof (cases "pow2 (?la - ?lb) \<le> \<bar>q\<bar>")
    case True
    then have "expo q = ?la - ?lb" by (simp add: expo_def ab Let_def)
    with True hi show ?thesis by simp
  next
    case False
    then have "expo q = ?la - ?lb - 1" by (simp add: expo_def ab Let_def)
    with False lo show ?thesis by simp
  qed
qed

lemma roundEven_of_int: "roundEven (of_int n) = n"
  by (simp add: roundEven_def)

lemma roundEven_cases:
  "roundEven x = \<lfloor>x\<rfloor> \<or> (roundEven x = \<lfloor>x\<rfloor> + 1 \<and> 1 / 2 \<le> x - of_int \<lfloor>x\<rfloor>)"
  by (simp add: roundEven_def Let_def)

lemma roundEven_le:
  assumes "x \<le> of_int k"
  shows "roundEven x \<le> k"
proof -
  from assms have fl: "\<lfloor>x\<rfloor> \<le> k" by (simp add: floor_le_iff)
  from roundEven_cases [of x] show ?thesis
  proof
    assume "roundEven x = \<lfloor>x\<rfloor>"
    with fl show ?thesis by simp
  next
    assume r: "roundEven x = \<lfloor>x\<rfloor> + 1 \<and> 1 / 2 \<le> x - of_int \<lfloor>x\<rfloor>"
    then have "of_int \<lfloor>x\<rfloor> < x" by simp
    with assms have "of_int \<lfloor>x\<rfloor> < (of_int k :: rat)" by simp
    then have "\<lfloor>x\<rfloor> < k" by simp
    with r show ?thesis by simp
  qed
qed

lemma roundEven_ge:
  assumes "of_int k \<le> x"
  shows "k \<le> roundEven x"
proof -
  from assms have "k \<le> \<lfloor>x\<rfloor>" by (simp add: le_floor_iff)
  with roundEven_cases [of x] show ?thesis by auto
qed

lemma roundTo_idem:
  assumes p: "0 < p"
  shows "roundTo p emin (roundTo p emin q) = roundTo p emin q"
proof (cases "q = 0")
  case True
  then show ?thesis by (simp add: roundTo_def)
next
  case q0: False
  define e where "e = max (expo q) emin"
  define u where "u = e - int p + 1"
  define N where "N = roundEven (q / pow2 u)"
  define r where "r = of_int N * pow2 u"
  have r: "roundTo p emin q = r"
    using q0 by (simp add: roundTo_def Let_def e_def u_def N_def r_def)
  show ?thesis
  proof (cases "N = 0")
    case True
    then have "r = 0" by (simp add: r_def)
    then show ?thesis unfolding r by (simp add: roundTo_def)
  next
    case N0: False
    have upos: "0 < pow2 u" by (rule pow2_pos)
    from N0 upos have r0: "r \<noteq> 0" by (simp add: r_def)
    define e' where "e' = max (expo r) emin"
    define u' where "u' = e' - int p + 1"
    have u'pos: "0 < pow2 u'" by (rule pow2_pos)
    have P: "pow2 (e + 1) = of_int (2 ^ p) * pow2 u"
    proof -
      have "e + 1 = int p + u" by (simp add: u_def)
      then have "pow2 (e + 1) = pow2 (int p) * pow2 u" by (simp add: pow2_add)
      then show ?thesis by (simp add: pow2_nat)
    qed
    from expo_bounds [OF q0] have "\<bar>q\<bar> < pow2 (expo q + 1)" by simp
    also have "\<dots> \<le> pow2 (e + 1)" by (simp add: pow2_le_iff e_def)
    finally have "\<bar>q\<bar> < of_int (2 ^ p) * pow2 u" by (simp add: P)
    with upos have "\<bar>q / pow2 u\<bar> < of_int (2 ^ p)"
      by (simp add: abs_divide pos_divide_less_eq)
    then have "q / pow2 u < of_int (2 ^ p) \<and> - (q / pow2 u) < of_int (2 ^ p)"
      unfolding abs_less_iff .
    then have "q / pow2 u \<le> of_int (2 ^ p)" "of_int (- (2 ^ p)) \<le> q / pow2 u"
      by simp_all
    then have "N \<le> 2 ^ p" "- (2 ^ p) \<le> N"
      unfolding N_def by (simp_all add: roundEven_le roundEven_ge)
    then have absN: "\<bar>N\<bar> \<le> 2 ^ p" by simp
    have rabs: "\<bar>r\<bar> = of_int \<bar>N\<bar> * pow2 u"
      using upos by (simp add: r_def abs_mult)
    from absN have "(of_int \<bar>N\<bar> :: rat) \<le> of_int (2 ^ p)"
      unfolding of_int_le_iff .
    with upos have rle: "\<bar>r\<bar> \<le> pow2 (e + 1)"
      unfolding rabs P by (simp add: mult_right_mono)
    from expo_bounds [OF r0] have er: "pow2 (expo r) \<le> \<bar>r\<bar>" by simp
    with rle have "pow2 (expo r) \<le> pow2 (e + 1)" by simp
    then have up: "expo r \<le> e + 1" by (simp add: pow2_le_iff)
    have "\<exists>M. r = of_int M * pow2 u'"
    proof (cases "e' \<le> e")
      case True
      then have le: "0 \<le> u - u'" by (simp add: u_def u'_def)
      have "pow2 u = pow2 ((u - u') + u')" by simp
      also have "\<dots> = of_int (2 ^ nat (u - u')) * pow2 u'"
        unfolding pow2_add using le by (simp add: pow2_nat)
      finally have "r = of_int (N * 2 ^ nat (u - u')) * pow2 u'"
        by (simp add: r_def)
      then show ?thesis ..
    next
      case False
      then have lt: "e < e'" by simp
      have "emin \<le> e" by (simp add: e_def)
      with lt have e'eq: "e' = expo r" by (simp add: e'_def max_def split: if_splits)
      with lt up have ee: "expo r = e + 1" by simp
      with e'eq have u'eq: "u' = u + 1" by (simp add: u_def u'_def)
      from er ee rle have "\<bar>r\<bar> = pow2 (e + 1)" by simp
      with upos have "(of_int \<bar>N\<bar> :: rat) = of_int (2 ^ p)"
        unfolding rabs P by simp
      then have Nabs: "\<bar>N\<bar> = 2 ^ p" unfolding of_int_eq_iff .
      from p obtain p' where p': "p = Suc p'" by (cases p) auto
      from Nabs have "N = 2 * (if 0 \<le> N then 2 ^ p' else - (2 ^ p'))"
        by (simp add: p' abs_if split: if_splits)
      then obtain M where NM: "N = 2 * M" ..
      have "pow2 1 = 2" by (simp add: pow2_def)
      then have "pow2 u' = 2 * pow2 u" unfolding u'eq pow2_add by simp
      with NM have "r = of_int M * pow2 u'" by (simp add: r_def)
      then show ?thesis ..
    qed
    then obtain M where M: "r = of_int M * pow2 u'" ..
    with u'pos have "r / pow2 u' = of_int M" by simp
    moreover have "roundTo p emin r = of_int (roundEven (r / pow2 u')) * pow2 u'"
      using r0 by (simp add: roundTo_def Let_def e'_def u'_def)
    ultimately have "roundTo p emin r = r"
      by (simp add: roundEven_of_int M)
    then show ?thesis by (simp add: r)
  qed
qed

lemma rnd_idem: "rnd (rnd q) = rnd q"
  by (simp add: rnd_def roundTo_idem)

lemma rnd_0: "rnd 0 = 0"
  by (simp add: rnd_def roundTo_def)

lemma rnd_1: "rnd 1 = 1"
  by code_simp

text \<open>
  The literal \<open>0.1\<close> denotes the binary64 value \<open>3602879701896397 / 2^55\<close>.
\<close>

lemma rnd_tenth: "rnd (1 / 10) = 3602879701896397 / 36028797018963968"
  by code_simp

lemma roundEven_err: "\<bar>of_int (roundEven x) - x\<bar> \<le> 1 / 2"
proof -
  have "of_int \<lfloor>x\<rfloor> \<le> x" "x < of_int \<lfloor>x\<rfloor> + 1" by linarith+
  then show ?thesis
    by (auto simp: roundEven_def Let_def abs_le_iff)
qed

lemma roundTo_err:
  assumes "q \<noteq> 0"
  shows "\<bar>roundTo p emin q - q\<bar> \<le> pow2 (max (expo q) emin - int p)"
proof -
  define u where "u = pow2 (max (expo q) emin - int p + 1)"
  have upos: "0 < u" by (simp add: u_def pow2_pos)
  have r: "roundTo p emin q = of_int (roundEven (q / u)) * u"
    using assms by (simp add: roundTo_def Let_def u_def)
  have "roundTo p emin q - q = (of_int (roundEven (q / u)) - q / u) * u"
    using upos by (simp add: r algebra_simps)
  then have "\<bar>roundTo p emin q - q\<bar> = \<bar>of_int (roundEven (q / u)) - q / u\<bar> * u"
    using upos by (simp add: abs_mult)
  also have "\<dots> \<le> 1 / 2 * u"
    using upos roundEven_err [of "q / u"] by (intro mult_right_mono) simp_all
  also have "\<dots> = pow2 (max (expo q) emin - int p)"
  proof -
    have "pow2 1 = 2" by (simp add: pow2_def)
    then have "u = pow2 (max (expo q) emin - int p) * 2"
      unfolding u_def pow2_add by simp
    then show ?thesis by simp
  qed
  finally show ?thesis .
qed

lemma minValue_pos: "0 < minValue"
  by (simp add: minValue_def pow2_pos)

lemma rnd_err: "\<bar>rnd q - q\<bar> \<le> \<bar>q\<bar> / 2 ^ 53 + minValue / 2"
proof (cases "q = 0")
  case True
  then show ?thesis using minValue_pos by (simp add: rnd_0)
next
  case False
  from roundTo_err [OF False, of 53 "- 1022"]
  have e: "\<bar>rnd q - q\<bar> \<le> pow2 (max (expo q) (- 1022) - 53)"
    by (simp add: rnd_def)
  show ?thesis
  proof (cases "- 1022 \<le> expo q")
    case True
    then have "pow2 (max (expo q) (- 1022) - 53) = pow2 (expo q) * pow2 (- 53)"
      by (simp add: max_def flip: pow2_add)
    also have "\<dots> \<le> \<bar>q\<bar> * pow2 (- 53)"
      using expo_bounds [OF False] pow2_pos [of "- 53"] by (intro mult_right_mono) simp_all
    also have "\<dots> = \<bar>q\<bar> / 2 ^ 53" by (simp add: pow2_def)
    finally show ?thesis using e minValue_pos by simp
  next
    case False
    have "pow2 (- 1075 + 1) = pow2 (- 1075) * pow2 1" by (rule pow2_add)
    moreover have "pow2 1 = 2" by (simp add: pow2_def)
    ultimately have "minValue = pow2 (- 1075) * 2"
      unfolding minValue_def by simp
    moreover from False have "max (expo q) (- 1022) - 53 = - 1075" by simp
    ultimately have "\<bar>rnd q - q\<bar> \<le> minValue / 2" using e by simp
    moreover have "0 \<le> \<bar>q\<bar> / 2 ^ 53" by simp
    ultimately show ?thesis by linarith
  qed
qed

lemma fop_err:
  "\<bar>fadd a b - (a + b)\<bar> \<le> \<bar>a + b\<bar> / 2 ^ 53 + minValue / 2"
  "\<bar>fsub a b - (a - b)\<bar> \<le> \<bar>a - b\<bar> / 2 ^ 53 + minValue / 2"
  "\<bar>fmul a b - a * b\<bar> \<le> \<bar>a * b\<bar> / 2 ^ 53 + minValue / 2"
  "\<bar>fdiv a b - a / b\<bar> \<le> \<bar>a / b\<bar> / 2 ^ 53 + minValue / 2"
  unfolding fadd_def fsub_def fmul_def fdiv_def by (rule rnd_err)+

lemma div_le_mono53: "(a::rat) \<le> b \<Longrightarrow> a / 2 ^ 53 + h \<le> b / 2 ^ 53 + h"
  by (simp add: divide_right_mono)

lemma isFinite_small: "\<bar>q\<bar> \<le> 1024 \<Longrightarrow> isFinite q"
  by (simp add: isFinite_def maxValue_def)

lemma list_all_isFinite: "list_all (\<lambda>q. \<bar>q\<bar> \<le> 1024) xs \<Longrightarrow> list_all isFinite xs"
  by (induction xs) (simp_all add: isFinite_small)

section \<open>The invariants hold in every reachable state\<close>

lemma mapInv_empty: "mapInv ps 0 Map.empty"
  by (simp add: mapInv_def lastOcc_def)

lemma mapInv_step:
  assumes "mapInv ps n m"
  shows "mapInv ps (Suc n) (m(pt_id (ps ! n) \<mapsto> n))"
  unfolding mapInv_def
proof (intro allI)
  fix k i
  show "((m(pt_id (ps ! n) \<mapsto> n)) k = Some i) = lastOcc ps (Suc n) k i"
  proof (cases "pt_id (ps ! n) = k")
    case True
    then show ?thesis
      by (auto simp: lastOcc_def less_Suc_eq)
  next
    case False
    then have "lastOcc ps (Suc n) k i = lastOcc ps n k i"
      by (auto simp: lastOcc_def less_Suc_eq)
    with False assms show ?thesis
      by (simp add: mapInv_def)
  qed
qed

lemma mapInv_append:
  assumes "mapInv ps (length ps) m"
  shows "mapInv (ps @ qs) (length ps) m"
proof -
  have "lastOcc (ps @ qs) (length ps) k i = lastOcc ps (length ps) k i" for k i
    by (auto simp: lastOcc_def nth_append)
  with assms show ?thesis by (simp add: mapInv_def)
qed

lemma gridInv_empty: "gridInv ps 0 Map.empty"
  by (simp add: gridInv_def cellSet_def)

lemma gridInv_step:
  assumes "gridInv ps n g"
  shows "gridInv ps (Suc n) (gridInsert ps n g)"
  unfolding gridInv_def
proof (intro allI)
  fix k
  from assms have old: "cellSet g k = {i. i < n \<and> cellOf (ps ! i) = k}"
    unfolding gridInv_def by blast
  show "cellSet (gridInsert ps n g) k = {i. i < Suc n \<and> cellOf (ps ! i) = k}"
  proof (cases "cellOf (ps ! n) = k")
    case True
    then have "cellSet (gridInsert ps n g) k = insert n (cellSet g k)"
      by (auto simp: cellSet_def gridInsert_def Let_def split: option.splits)
    with True old show ?thesis by (auto simp: less_Suc_eq)
  next
    case False
    then have "cellSet (gridInsert ps n g) k = cellSet g k"
      by (auto simp: cellSet_def gridInsert_def Let_def split: option.splits)
    with False old show ?thesis by (auto simp: less_Suc_eq)
  qed
qed

lemma gridInv_fold:
  assumes "gridInv ps a g" and "a \<le> b"
  shows "gridInv ps b (fold (gridInsert ps) [a..<b] g)"
  using assms(2)
proof (induction b)
  case 0
  with assms(1) show ?case by simp
next
  case (Suc b)
  show ?case
  proof (cases "a = Suc b")
    case True
    with assms(1) show ?thesis by simp
  next
    case False
    with Suc.prems have "a \<le> b" by simp
    with Suc.IH have "gridInv ps b (fold (gridInsert ps) [a..<b] g)" by simp
    then have "gridInv ps (Suc b) (gridInsert ps b (fold (gridInsert ps) [a..<b] g))"
      by (rule gridInv_step)
    with \<open>a \<le> b\<close> show ?thesis by simp
  qed
qed

lemma gridInv_append:
  assumes "gridInv ps (length ps) g"
  shows "gridInv (ps @ qs) (length ps) g"
  using assms by (simp add: gridInv_def nth_append cong: conj_cong)

lemma setPointsStep_pair:
  "setPointsStep pts i (d, m) =
     (d[i * 2 + 0 := fround (pt_x (pts ! i)), i * 2 + 1 := fround (pt_y (pts ! i))],
      m(pt_id (pts ! i) \<mapsto> i))"
  by (simp add: setPointsStep_def)

lemma appendPointsStep_pair:
  "appendPointsStep pts n i (d, m) =
     (d[(n - length pts + i) * 2 + 0 := fround (pt_x (pts ! i)),
        (n - length pts + i) * 2 + 1 := fround (pt_y (pts ! i))],
      m(pt_id (pts ! i) \<mapsto> n - length pts + i))"
  by (simp add: appendPointsStep_def Let_def)

lemma setPoints_fold:
  assumes "n \<le> length pts"
  shows "\<exists>d m. fold (setPointsStep pts) [0..<n] (d0, Map.empty) = (d, m) \<and>
           length d = length d0 \<and> mapInv pts n m"
  using assms
proof (induction n)
  case 0
  show ?case by (simp add: mapInv_empty)
next
  case (Suc n)
  then obtain d m where dm: "fold (setPointsStep pts) [0..<n] (d0, Map.empty) = (d, m)"
    and len: "length d = length d0" and mi: "mapInv pts n m"
    by auto
  from dm have "fold (setPointsStep pts) [0..<Suc n] (d0, Map.empty) =
      (d[n * 2 + 0 := fround (pt_x (pts ! n)), n * 2 + 1 := fround (pt_y (pts ! n))],
       m(pt_id (pts ! n) \<mapsto> n))"
    by (simp add: setPointsStep_pair)
  moreover from len
  have "length (d[n * 2 + 0 := fround (pt_x (pts ! n)), n * 2 + 1 := fround (pt_y (pts ! n))])
      = length d0"
    by simp
  moreover from mi have "mapInv pts (Suc n) (m(pt_id (pts ! n) \<mapsto> n))"
    by (rule mapInv_step)
  ultimately show ?case by blast
qed

lemma appendPoints_fold:
  assumes "n \<le> length qs" and "mapInv (ps @ qs) (length ps) m0"
  shows "\<exists>d m. fold (appendPointsStep qs (length (ps @ qs))) [0..<n] (d0, m0) = (d, m) \<and>
           length d = length d0 \<and> mapInv (ps @ qs) (length ps + n) m"
  using assms(1)
proof (induction n)
  case 0
  with assms(2) show ?case by simp
next
  case (Suc n)
  then obtain d m
    where dm: "fold (appendPointsStep qs (length (ps @ qs))) [0..<n] (d0, m0) = (d, m)"
      and len: "length d = length d0" and mi: "mapInv (ps @ qs) (length ps + n) m"
    by auto
  from dm have "fold (appendPointsStep qs (length (ps @ qs))) [0..<Suc n] (d0, m0) =
      (d[(length ps + n) * 2 + 0 := fround (pt_x (qs ! n)),
         (length ps + n) * 2 + 1 := fround (pt_y (qs ! n))],
       m(pt_id (qs ! n) \<mapsto> length ps + n))"
    by (simp add: appendPointsStep_pair)
  moreover from len
  have "length (d[(length ps + n) * 2 + 0 := fround (pt_x (qs ! n)),
         (length ps + n) * 2 + 1 := fround (pt_y (qs ! n))]) = length d0"
    by simp
  moreover from mapInv_step [OF mi]
  have "mapInv (ps @ qs) (length ps + Suc n) (m(pt_id (qs ! n) \<mapsto> length ps + n))"
    by simp
  ultimately show ?case by blast
qed

lemma storeInv_init: "storeInv init"
  by (simp add: storeInv_def init_def mapInv_empty gridInv_empty)

lemma storeInv_setPoints: "storeInv (setPoints pts s)"
proof -
  from setPoints_fold [of "length pts" pts "replicate (length pts * 2) 0"]
  obtain d m where dm: "fold (setPointsStep pts) [0..<length pts]
      (replicate (length pts * 2) 0, Map.empty) = (d, m)"
    and "length d = 2 * length pts" "mapInv pts (length pts) m"
    by auto
  moreover have "gridInv pts (length pts) (fold (gridInsert pts) [0..<length pts] Map.empty)"
    by (rule gridInv_fold [OF gridInv_empty]) simp
  ultimately show ?thesis
    by (simp add: storeInv_def setPoints_def dm rebuildGrid_def invalidate_def)
qed

lemma storeInv_appendPoints:
  assumes "storeInv s" and "appendPoints pts s = Inr s'"
  shows "storeInv s'"
proof (cases "pts = []")
  case True
  with assms show ?thesis by (simp add: appendPoints_def)
next
  case False
  let ?ps = "points s @ pts"
  let ?nd0 = "data s @ drop (length (data s)) (replicate (length ?ps * 2) 0)"
  let ?f = "fold (appendPointsStep pts (length ?ps)) [0..<length pts] (?nd0, idToIndex s)"
  from assms(1) have len: "length (data s) = 2 * length (points s)"
    and mi: "mapInv (points s) (length (points s)) (idToIndex s)"
    and gi: "gridInv (points s) (length (points s)) (grid s)"
    by (simp_all add: storeInv_def)
  from appendPoints_fold [of "length pts" pts "points s" "idToIndex s" ?nd0] mi
  obtain d m where dm: "?f = (d, m)"
    and dlen: "length d = length ?nd0" and mi': "mapInv ?ps (length ?ps) m"
    by (auto simp: mapInv_append)
  from len have tas: "typedArraySet (replicate (length ?ps * 2) 0) (data s) = Inr ?nd0"
    by (simp add: typedArraySet_def)
  from False assms(2) tas dm
  have s': "s' = invalidate ((addToGrid (length ?ps - length pts)
       (s\<lparr>points := ?ps, data := d, idToIndex := m\<rparr>))\<lparr>needsUpload := True\<rparr>)"
    by (simp add: appendPoints_def Let_def)
  note dlen mi'
  moreover from len have "length ?nd0 = 2 * length ?ps" by simp
  moreover have "gridInv ?ps (length ?ps) (fold (gridInsert ?ps) [length (points s)..<length ?ps] (grid s))"
    by (rule gridInv_fold [OF gridInv_append [OF gi]]) simp
  ultimately show ?thesis
    by (simp add: s' storeInv_def addToGrid_def invalidate_def)
qed

text \<open>
  In a state that satisfies the invariant, \<open>appendPoints\<close> does not throw.
\<close>

lemma appendPoints_returns:
  assumes "storeInv s"
  shows "\<exists>s'. appendPoints pts s = Inr s'"
  using assms
  by (auto simp: appendPoints_def storeInv_def typedArraySet_def Let_def split: prod.splits)

lemma store_setSelectedId [simp]:
  "points (setSelectedId ido s) = points s" "data (setSelectedId ido s) = data s"
  "idToIndex (setSelectedId ido s) = idToIndex s" "grid (setSelectedId ido s) = grid s"
  by (simp_all add: setSelectedId_def invalidate_def split: option.splits)

lemma store_centerOnSelected:
  assumes "centerOnSelected smooth now s = Inr (s', a)"
  shows "points s' = points s \<and> data s' = data s \<and> idToIndex s' = idToIndex s \<and> grid s' = grid s"
  using assms
  by (auto simp: centerOnSelected_def invalidate_def Let_def split: if_splits)

lemma store_animStep [simp]:
  "points (fst (animStep a now s)) = points s" "data (fst (animStep a now s)) = data s"
  "idToIndex (fst (animStep a now s)) = idToIndex s" "grid (fst (animStep a now s)) = grid s"
  by (simp_all add: animStep_def invalidate_def Let_def)

lemma store_mousedown [simp]:
  "points (mousedown b cx cy s) = points s" "data (mousedown b cx cy s) = data s"
  "idToIndex (mousedown b cx cy s) = idToIndex s" "grid (mousedown b cx cy s) = grid s"
  by (simp_all add: mousedown_def)

lemma store_mouseup [simp]:
  "points (mouseup s) = points s" "data (mouseup s) = data s"
  "idToIndex (mouseup s) = idToIndex s" "grid (mouseup s) = grid s"
  by (simp_all add: mouseup_def)

lemma store_mousemove [simp]:
  "points (mousemove rc cx cy s) = points s" "data (mousemove rc cx cy s) = data s"
  "idToIndex (mousemove rc cx cy s) = idToIndex s" "grid (mousemove rc cx cy s) = grid s"
  by (simp_all add: mousemove_def invalidate_def Let_def)

lemma store_wheel [simp]:
  "points (wheel mpow rc cx cy dy s) = points s" "data (wheel mpow rc cx cy dy s) = data s"
  "idToIndex (wheel mpow rc cx cy dy s) = idToIndex s" "grid (wheel mpow rc cx cy dy s) = grid s"
  by (simp_all add: wheel_def invalidate_def Let_def split: prod.splits)

lemma reachable_storeInv: "reachable s \<Longrightarrow> storeInv s"
proof (induction rule: reachable.induct)
  case r_init
  show ?case by (rule storeInv_init)
next
  case (r_setPoints s pts)
  show ?case by (rule storeInv_setPoints)
next
  case (r_appendPoints s pts s')
  then show ?case by (blast intro: storeInv_appendPoints)
next
  case (r_centerOnSelected s smooth now s' a)
  from store_centerOnSelected [OF r_centerOnSelected.hyps(2)] r_centerOnSelected.IH
  show ?case by (simp add: storeInv_def)
qed (simp_all add: storeInv_def)

lemma reachable_lookup:
  assumes "reachable s"
  shows "idToIndex s k = Some i \<longleftrightarrow> lastOcc (points s) (length (points s)) k i"
  using reachable_storeInv [OF assms] by (simp add: storeInv_def mapInv_def)


lemma points_setPoints: "points (setPoints pts s) = pts"
  by (simp add: setPoints_def rebuildGrid_def invalidate_def split: prod.splits)

lemma selectedIndex_setPoints: "selectedIndex (setPoints pts s) = selectedIndex s"
  by (simp add: setPoints_def rebuildGrid_def invalidate_def split: prod.splits)

lemma view_setPoints [simp]:
  "scale (setPoints pts s) = scale s" "tx (setPoints pts s) = tx s" "ty (setPoints pts s) = ty s"
  by (simp_all add: setPoints_def rebuildGrid_def invalidate_def split: prod.splits)

lemma view_setSelectedId [simp]:
  "scale (setSelectedId ido s) = scale s" "tx (setSelectedId ido s) = tx s"
  "ty (setSelectedId ido s) = ty s"
  by (simp_all add: setSelectedId_def invalidate_def split: option.splits)

section \<open>Frames\<close>

lemma base_blue_not_one: "rnd (19 / 20) \<noteq> 1"
  by code_simp

lemma highlight_in_draw:
  "highlightCall \<in> set (fst (draw msqrt s)) \<longleftrightarrow>
     0 \<le> selectedIndex s \<and> selectedIndex s < int (length (points s))"
  by (simp add: draw_def highlightCall_def Let_def base_blue_not_one)

lemma drawArrays_in_draw:
  "DrawArrays first n \<in> set (fst (draw msqrt s)) \<longleftrightarrow>
     (first = 0 \<and> n = int (length (points s))) \<or>
     (0 \<le> selectedIndex s \<and> selectedIndex s < int (length (points s)) \<and>
      first = selectedIndex s \<and> n = 1)"
  by (auto simp: draw_def Let_def)

lemma snd_draw: "snd (draw msqrt s) = invalidate s"
  by (simp add: draw_def invalidate_def Let_def)

section \<open>Zoom and animation steps\<close>

lemma wheel_view:
  "scale (wheel mpow rc cx cy dy s) = fmul (scale s) (mpow (rnd (11 / 10)) (- sgn dy))"
  "tx (wheel mpow rc cx cy dy s) =
     fsub (fst (pixelToNdc rc (fsub cx (rect_left rc), fsub cy (rect_top rc))))
       (fmul (fst (ndcToWorld s (pixelToNdc rc (fsub cx (rect_left rc), fsub cy (rect_top rc)))))
          (scale (wheel mpow rc cx cy dy s)))"
  "ty (wheel mpow rc cx cy dy s) =
     fsub (snd (pixelToNdc rc (fsub cx (rect_left rc), fsub cy (rect_top rc))))
       (fmul (snd (ndcToWorld s (pixelToNdc rc (fsub cx (rect_left rc), fsub cy (rect_top rc)))))
          (scale (wheel mpow rc cx cy dy s)))"
  by (simp_all add: wheel_def Let_def invalidate_def case_prod_beta)

text \<open>
  The error of one coordinate after the four operations of a round trip: a product
  \<open>p\<close> of \<open>w\<close> and \<open>k\<close>, a sum or difference with \<open>t\<close> and back (\<open>g\<close> before
  rounding, \<open>c\<close> after it), and the quotient by \<open>k\<close>, each rounded with relative
  error \<open>2^-53\<close> and absolute error \<open>h\<close>.
\<close>

lemma drift_arith1:
  fixes D G P A T h :: rat
  assumes "D \<le> (G / 2 ^ 53 + h) + ((P + T) / 2 ^ 53 + h) + (A / 2 ^ 53 + h)"
    and "P \<le> A + (A / 2 ^ 53 + h)" and "G \<le> P + ((P + T) / 2 ^ 53 + h)"
    and "0 \<le> A" and "0 \<le> T" and "0 \<le> h"
  shows "D \<le> A * 3 / 2 ^ 52 + T / 2 ^ 52 + 3 * h + h / 2 ^ 50"
proof -
  have "G / 2 ^ 53 \<le> (P + ((P + T) / 2 ^ 53 + h)) / 2 ^ 53"
    using assms(3) by (intro divide_right_mono) simp_all
  moreover have "P / 2 ^ 53 \<le> (A + (A / 2 ^ 53 + h)) / 2 ^ 53"
    using assms(2) by (intro divide_right_mono) simp_all
  ultimately show ?thesis using assms by (simp add: field_simps)
qed

lemma drift_arith2:
  fixes a b d m h :: rat
  assumes "d \<le> a * 3 / 2 ^ 52 + b / 2 ^ 52 + 3 * m + m / 2 ^ 50"
    and "0 \<le> a" and "0 \<le> b" and "0 \<le> m" and "0 \<le> h"
  shows "(a + d) / 2 ^ 53 + h + d \<le> (a + b) / 2 ^ 50 + (4 * h + 4 * m)"
proof -
  have "d / 2 ^ 53 \<le> (a * 3 / 2 ^ 52 + b / 2 ^ 52 + 3 * m + m / 2 ^ 50) / 2 ^ 53"
    using assms(1) by (intro divide_right_mono) simp_all
  then show ?thesis using assms by (simp add: field_simps)
qed

lemma drift_bound:
  fixes w k t p g c w' :: rat
  assumes k: "0 < k"
    and e1: "\<bar>p - w * k\<bar> \<le> \<bar>w * k\<bar> / 2 ^ 53 + h"
    and e2: "\<bar>g - p\<bar> \<le> (\<bar>p\<bar> + \<bar>t\<bar>) / 2 ^ 53 + h"
    and e3: "\<bar>c - g\<bar> \<le> \<bar>g\<bar> / 2 ^ 53 + h"
    and e4: "\<bar>w' - c / k\<bar> \<le> \<bar>c / k\<bar> / 2 ^ 53 + h"
    and h: "0 \<le> h"
  shows "\<bar>w' - w\<bar> \<le> (\<bar>w\<bar> + \<bar>t\<bar> / k) / 2 ^ 50 + 4 * h * (1 + 1 / k)"
proof -
  define A where "A = \<bar>w * k\<bar>"
  define T where "T = \<bar>t\<bar>"
  define D where "D = \<bar>c - w * k\<bar>"
  have A0: "0 \<le> A" and T0: "0 \<le> T" by (simp_all add: A_def T_def)
  have p: "\<bar>p\<bar> \<le> A + (A / 2 ^ 53 + h)"
    using e1 unfolding A_def by linarith
  have g: "\<bar>g\<bar> \<le> \<bar>p\<bar> + ((\<bar>p\<bar> + T) / 2 ^ 53 + h)"
    using e2 unfolding T_def by linarith
  have "D \<le> \<bar>c - g\<bar> + \<bar>g - p\<bar> + \<bar>p - w * k\<bar>"
    unfolding D_def by linarith
  with e1 e2 e3 have "D \<le> (\<bar>g\<bar> / 2 ^ 53 + h) + ((\<bar>p\<bar> + T) / 2 ^ 53 + h) + (A / 2 ^ 53 + h)"
    unfolding A_def T_def by linarith
  from this p g A0 T0 h have D: "D \<le> A * 3 / 2 ^ 52 + T / 2 ^ 52 + 3 * h + h / 2 ^ 50"
    by (rule drift_arith1)
  have cb: "\<bar>c\<bar> \<le> A + D"
    unfolding A_def D_def by linarith
  define a where "a = A / k"
  define b where "b = T / k"
  define m where "m = h / k"
  define d where "d = D / k"
  have nn: "0 \<le> a" "0 \<le> b" "0 \<le> m"
    using A0 T0 h k by (simp_all add: a_def b_def m_def)
  have aw: "a = \<bar>w\<bar>" using k by (simp add: a_def A_def abs_mult)
  have "D / k \<le> (A * 3 / 2 ^ 52 + T / 2 ^ 52 + 3 * h + h / 2 ^ 50) / k"
    using D k by (intro divide_right_mono) simp_all
  also have "\<dots> = a * 3 / 2 ^ 52 + b / 2 ^ 52 + 3 * m + m / 2 ^ 50"
    unfolding a_def b_def m_def by (simp add: add_divide_distrib)
  finally have d: "d \<le> a * 3 / 2 ^ 52 + b / 2 ^ 52 + 3 * m + m / 2 ^ 50"
    unfolding d_def .
  have "\<bar>c\<bar> / k \<le> (A + D) / k"
    using cb k by (intro divide_right_mono) simp_all
  then have ck: "\<bar>c / k\<bar> \<le> a + d"
    using k by (simp add: abs_divide a_def d_def add_divide_distrib)
  have "c / k - w = (c - w * k) / k" using k by (simp add: field_simps)
  then have q: "\<bar>c / k - w\<bar> = d" using k by (simp add: d_def D_def abs_divide)
  have "\<bar>w' - w\<bar> \<le> \<bar>w' - c / k\<bar> + \<bar>c / k - w\<bar>" by linarith
  also have "\<dots> \<le> \<bar>c / k\<bar> / 2 ^ 53 + h + d"
    using e4 unfolding q by linarith
  also have "\<dots> \<le> (a + d) / 2 ^ 53 + h + d"
  proof -
    from ck have "\<bar>c / k\<bar> / 2 ^ 53 \<le> (a + d) / 2 ^ 53"
      by (intro divide_right_mono) simp_all
    then show ?thesis by linarith
  qed
  also from d nn h have "\<dots> \<le> (a + b) / 2 ^ 50 + (4 * h + 4 * m)"
    by (rule drift_arith2)
  also have "4 * h + 4 * m = 4 * h * (1 + 1 / k)"
    by (simp add: m_def algebra_simps)
  finally show ?thesis unfolding aw b_def T_def .
qed

lemma roundtrip_one:
  assumes "0 < k"
  shows "\<bar>fdiv (fsub (fadd (fmul x k) t) t) k - x\<bar>
     \<le> (\<bar>x\<bar> + \<bar>t\<bar> / k) / 2 ^ 50 + 2 * minValue * (1 + 1 / k)"
proof -
  define p where "p = fmul x k"
  define b where "b = fadd p t"
  define c where "c = fsub b t"
  have e1: "\<bar>p - x * k\<bar> \<le> \<bar>x * k\<bar> / 2 ^ 53 + minValue / 2"
    unfolding p_def by (rule fop_err)
  have "\<bar>b - (p + t)\<bar> \<le> \<bar>p + t\<bar> / 2 ^ 53 + minValue / 2"
    unfolding b_def by (rule fop_err)
  also have "\<dots> \<le> (\<bar>p\<bar> + \<bar>t\<bar>) / 2 ^ 53 + minValue / 2"
    by (rule div_le_mono53) (rule abs_triangle_ineq)
  finally have e2: "\<bar>(b - t) - p\<bar> \<le> (\<bar>p\<bar> + \<bar>t\<bar>) / 2 ^ 53 + minValue / 2"
    by (simp add: algebra_simps)
  have e3: "\<bar>c - (b - t)\<bar> \<le> \<bar>b - t\<bar> / 2 ^ 53 + minValue / 2"
    unfolding c_def by (rule fop_err)
  have e4: "\<bar>fdiv c k - c / k\<bar> \<le> \<bar>c / k\<bar> / 2 ^ 53 + minValue / 2"
    by (rule fop_err)
  have h: "0 \<le> minValue / 2" using minValue_pos by simp
  from drift_bound [OF assms e1 e2 e3 e4 h] show ?thesis
    by (simp add: c_def b_def p_def)
qed

lemma anchor_one_tol:
  assumes "0 < k"
  shows "\<bar>fdiv (fsub n (fsub n (fmul a k))) k - a\<bar>
     \<le> (\<bar>a\<bar> + \<bar>n\<bar> / k) / 2 ^ 50 + 2 * minValue * (1 + 1 / k)"
proof -
  define p where "p = fmul a k"
  define b where "b = fsub n p"
  define c where "c = fsub n b"
  have e1: "\<bar>p - a * k\<bar> \<le> \<bar>a * k\<bar> / 2 ^ 53 + minValue / 2"
    unfolding p_def by (rule fop_err)
  have "\<bar>b - (n - p)\<bar> \<le> \<bar>n - p\<bar> / 2 ^ 53 + minValue / 2"
    unfolding b_def by (rule fop_err)
  also have "\<dots> \<le> (\<bar>p\<bar> + \<bar>n\<bar>) / 2 ^ 53 + minValue / 2"
    by (rule div_le_mono53) linarith
  finally have e2: "\<bar>(n - b) - p\<bar> \<le> (\<bar>p\<bar> + \<bar>n\<bar>) / 2 ^ 53 + minValue / 2"
    by (simp add: algebra_simps abs_minus_commute)
  have e3: "\<bar>c - (n - b)\<bar> \<le> \<bar>n - b\<bar> / 2 ^ 53 + minValue / 2"
    unfolding c_def by (rule fop_err)
  have e4: "\<bar>fdiv c k - c / k\<bar> \<le> \<bar>c / k\<bar> / 2 ^ 53 + minValue / 2"
    by (rule fop_err)
  have h: "0 \<le> minValue / 2" using minValue_pos by simp
  from drift_bound [OF assms e1 e2 e3 e4 h] show ?thesis
    by (simp add: c_def b_def p_def)
qed

lemma animStep_done:
  assumes "1 \<le> fdiv (fsub now (t0 a)) 150"
  shows "\<not> snd (animStep a now s)"
    and "tx (fst (animStep a now s)) = fadd (startTx a) (fsub (targetTx a) (startTx a))"
    and "ty (fst (animStep a now s)) = fadd (startTy a) (fsub (targetTy a) (startTy a))"
proof -
  from assms have t: "min 1 (fdiv (fsub now (t0 a)) 150) = 1" by simp
  have e: "fmul 1 (fsub 2 1) = 1" by (simp add: fmul_def fsub_def rnd_1)
  have m: "fmul (fsub x y) 1 = fsub x y" for x y
    by (simp add: fmul_def fsub_def rnd_idem)
  show "\<not> snd (animStep a now s)"
    by (simp add: animStep_def Let_def t)
  show "tx (fst (animStep a now s)) = fadd (startTx a) (fsub (targetTx a) (startTx a))"
    by (simp add: animStep_def Let_def t e m invalidate_def)
  show "ty (fst (animStep a now s)) = fadd (startTy a) (fsub (targetTy a) (startTy a))"
    by (simp add: animStep_def Let_def t e m invalidate_def)
qed

text \<open>
  With a selection index at or beyond the end of the point sequence,
  \<open>centerOnSelected\<close> throws.
\<close>

lemma centerOnSelected_stale:
  assumes "int (length (points s)) \<le> selectedIndex s"
  shows "centerOnSelected smooth now s = Inl TypeError"
  using assms by (simp add: centerOnSelected_def)

section \<open>The ring search\<close>















section \<open>The examples evaluated\<close>

lemma reachable_exStore: "reachable exStore"
  unfolding exStore_def by (rule r_setPoints [OF r_init])

lemma points_exStore: "points exStore = twoPoints"
  by (simp add: exStore_def points_setPoints)

lemma lookup_exStore_1: "idToIndex exStore 1 = Some 1"
  by (simp add: reachable_lookup [OF reachable_exStore] lastOcc_def points_exStore twoPoints_def)

lemma lookup_exStore_5: "idToIndex exStore 5 = None"
proof (cases "idToIndex exStore 5")
  case None
  then show ?thesis .
next
  case (Some i)
  then have "lastOcc twoPoints (length twoPoints) 5 i"
    by (simp add: reachable_lookup [OF reachable_exStore] points_exStore)
  then have "i < 2" "pt_id (twoPoints ! i) = 5"
    by (simp_all add: lastOcc_def twoPoints_def)
  then show ?thesis
    by (cases i) (auto simp: twoPoints_def less_Suc_eq)
qed

lemma reachable_exSelected: "reachable exSelected"
  unfolding exSelected_def by (rule r_setSelectedId [OF reachable_exStore])

lemma selectedIndex_exSelected: "selectedIndex exSelected = 1"
  by (simp add: exSelected_def setSelectedId_def invalidate_def lookup_exStore_1)

lemma points_exSelected: "points exSelected = twoPoints"
  by (simp add: exSelected_def points_exStore)

lemma view_exSelected: "scale exSelected = 1" "tx exSelected = 0" "ty exSelected = 0"
  by (simp_all add: exSelected_def exStore_def init_def)

lemma cellOf_half: "cellOf \<lparr>pt_id = 1, pt_x = 1 / 2, pt_y = 1 / 2\<rparr> = (10, 10)"
  by code_simp

lemma view_exPanned: "scale exPanned = 1" "tx exPanned = 1 / 2" "ty exPanned = 0"
  by (code_simp+)

lemma reachable_exPanned: "reachable exPanned"
  unfolding exPanned_def by (intro r_mousemove r_mousedown r_init)

lemma selectedIndex_exTenth: "selectedIndex exTenth = 0"
proof -
  let ?s = "setPoints [\<lparr>pt_id = 1, pt_x = rnd (1 / 10), pt_y = 0\<rparr>] exPanned"
  have "reachable ?s" by (rule r_setPoints [OF reachable_exPanned])
  then have "idToIndex ?s 1 = Some 0"
    by (auto simp: reachable_lookup points_setPoints lastOcc_def)
  then show ?thesis
    by (simp add: exTenth_def setSelectedId_def invalidate_def)
qed

lemma points_exTenth: "points exTenth = [\<lparr>pt_id = 1, pt_x = rnd (1 / 10), pt_y = 0\<rparr>]"
  by (simp add: exTenth_def points_setPoints)

lemma view_exTenth: "scale exTenth = 1" "tx exTenth = 1 / 2" "ty exTenth = 0"
  by (simp_all add: exTenth_def view_exPanned)

lemma tenth_arith:
  "fmul (- rnd (1 / 10)) 1 = - rnd (1 / 10)"
  "fmul 0 1 = 0"
  "fdiv (fsub 150 0) 150 = 1"
  "fadd (1 / 2) (fsub (- rnd (1 / 10)) (1 / 2)) \<noteq> - rnd (1 / 10)"
  by (code_simp+)

lemma cursor_arith:
  "exCursor 2 = (- (255 / 256), 0)"
  "ndcToWorld init (- (255 / 256), 0) = (- (255 / 256), 0)"
  "fmul (scale init) (wheelPow (rnd (11 / 10)) (- sgn (- 100))) = rnd (11 / 10)"
  by (code_simp+)

lemma zoom_arith:
  "fdiv (fsub (- (255 / 256)) (fsub (- (255 / 256)) (fmul (- (255 / 256)) (rnd (11 / 10)))))
     (rnd (11 / 10)) \<noteq> - (255 / 256)"
  "0 < rnd (11 / 10)"
  by (code_simp+)

lemma view_exWheel:
  "scale (exWheel cx) = rnd (11 / 10)"
  "tx (exWheel cx) = fsub (fst (exCursor cx)) (fmul (fst (ndcToWorld init (exCursor cx))) (rnd (11 / 10)))"
  "ty (exWheel cx) = fsub (snd (exCursor cx)) (fmul (snd (ndcToWorld init (exCursor cx))) (rnd (11 / 10)))"
  unfolding exWheel_def exCursor_def wheel_view cursor_arith(3) by (rule refl)+

lemma rnd_values:
  "rnd 2 = 2" "rnd 384 = 384" "rnd (1 / 512) = 1 / 512" "rnd (1 / 256) = 1 / 256"
  "rnd (1 / 2) = 1 / 2" "rnd (- (255 / 256)) = - (255 / 256)"
  "rnd (51 / 512) = 51 / 512" "rnd (- (561 / 512)) = - (561 / 512)"
  by (code_simp+)

lemma rnd_zoom_values:
  "rnd (- (255 * rnd (11 / 10) / 256)) = - (561 / 512)"
  "\<bar>rnd (11 / 10)\<bar> \<le> 1024"
  "\<bar>rnd (- (561 / (512 * rnd (11 / 10))))\<bar> \<le> 1024"
  by (code_simp+)

lemma wheelFinite_exWheel: "wheelFinite wheelPow rc1024 2 384 (- 100) init"
  unfolding wheelFinite_def Let_def
  by (rule list_all_isFinite)
     (simp add: wheel_view rc1024_def init_def wheelPow_def pixelToNdc_def ndcToWorld_def
      fadd_def fsub_def fmul_def fdiv_def rnd_0 rnd_1 rnd_idem rnd_values rnd_zoom_values)

lemma tenth_roundtrip:
  "fdiv (fsub (fadd (fmul (rnd (1 / 10)) 1) (1 / 2)) (1 / 2)) 1 \<noteq> rnd (1 / 10)"
  by code_simp

lemma transformFinite_exPanned:
  "transformFinite 1 (1 / 2) (rnd (1 / 10))" "transformFinite 1 0 0"
  unfolding transformFinite_def by (rule list_all_isFinite, code_simp)+

lemma nine_tenths_arith: "fmul (- rnd (9 / 10)) 1 = - rnd (9 / 10)"
  by code_simp




section \<open>The claims\<close>

subsection \<open>C1: the grid lists every point under the cell of its position\<close>

text \<open>
  Claim C1. In every reachable state, hence after any sequence of \<open>setPoints\<close> and
  \<open>appendPoints\<close> calls, the index \<open>i\<close> of a stored point occurs in the array of
  cell \<open>k\<close> of the grid exactly when \<open>k\<close> is the cell
  \<open>(floor(x / gridSize), floor(y / gridSize))\<close> of that point's position: it is
  listed under that cell and under no other.
\<close>

theorem grid_cell_of_position:
  assumes "reachable s" and "i < length (points s)"
  shows "(\<exists>arr. grid s k = Some arr \<and> i \<in> set arr) \<longleftrightarrow> k = cellOf (points s ! i)"
proof -
  from assms(1) have "gridInv (points s) (length (points s)) (grid s)"
    by (simp add: reachable_storeInv [unfolded storeInv_def])
  then have "cellSet (grid s) k = {i. i < length (points s) \<and> cellOf (points s ! i) = k}"
    unfolding gridInv_def by blast
  with assms(2) show ?thesis
    by (auto simp: cellSet_def split: option.splits)
qed

theorem grid_cell_of_position_witness:
  "reachable (setPoints twoPoints init) \<and> 1 < length (points (setPoints twoPoints init)) \<and>
   (\<exists>arr. grid (setPoints twoPoints init) (10, 10) = Some arr \<and> 1 \<in> set arr)"
proof -
  have r: "reachable (setPoints twoPoints init)"
    by (rule r_setPoints [OF r_init])
  have l: "1 < length (points (setPoints twoPoints init))"
    by (simp add: points_setPoints twoPoints_def)
  from grid_cell_of_position [OF r l, of "(10, 10)"] r l show ?thesis
    by (simp add: points_setPoints twoPoints_def cellOf_half)
qed

subsection \<open>C2: the ring search of pick\<close>



subsection \<open>C3: zoom anchored at the cursor\<close>

text \<open>
  Claim C3. The zoom-to-cursor update keeps the world point under the cursor, within
  the floating-point tolerance that the specification's sentence on zoom anchoring
  allows. Let \<open>c\<close> be the cursor position in NDC, \<open>w\<close> the world point under it before
  the wheel event and \<open>s'\<close> the state after it. For a canvas rectangle of non-zero
  width and height, a positive scale before and after the event, and when no
  operation of the handler overflows, each coordinate of the world point under the
  cursor after the update differs from that of \<open>w\<close> by at most
  \<open>(|w| + |c| / scale') / 2^50 + 2 * MIN_VALUE * (1 + 1 / scale')\<close>: a relative error
  of \<open>2^-50\<close>, eight units of roundoff, and a term for underflow. This holds for every
  rectangle, cursor position, wheel delta, translation and \<open>Math.pow\<close>. The
  difference need not be zero: in the example below, on a canvas 1024 pixels wide in
  its initial view with the cursor at pixel \<open>(2, 384)\<close> and a zoom by 1.1, world \<open>x\<close>
  is \<open>-0.99609375\<close> before and \<open>-0.9960937499999999\<close> after.
\<close>

theorem zoom_anchor_within_tolerance:
  fixes mpow rc clientX clientY deltaY s
  defines "c \<equiv> pixelToNdc rc (fsub clientX (rect_left rc), fsub clientY (rect_top rc))"
  defines "w \<equiv> ndcToWorld s c"
  defines "s' \<equiv> wheel mpow rc clientX clientY deltaY s"
  assumes "rect_width rc \<noteq> 0" and "rect_height rc \<noteq> 0"
    and "0 < scale s" and "0 < scale s'"
    and "wheelFinite mpow rc clientX clientY deltaY s"
  shows "\<bar>fst (ndcToWorld s' c) - fst w\<bar>
           \<le> (\<bar>fst w\<bar> + \<bar>fst c\<bar> / scale s') / 2 ^ 50 + 2 * minValue * (1 + 1 / scale s') \<and>
         \<bar>snd (ndcToWorld s' c) - snd w\<bar>
           \<le> (\<bar>snd w\<bar> + \<bar>snd c\<bar> / scale s') / 2 ^ 50 + 2 * minValue * (1 + 1 / scale s')"
proof -
  have t: "tx s' = fsub (fst c) (fmul (fst w) (scale s'))"
    "ty s' = fsub (snd c) (fmul (snd w) (scale s'))"
    unfolding s'_def c_def w_def by (rule wheel_view)+
  have f: "fst (ndcToWorld s' c) = fdiv (fsub (fst c) (tx s')) (scale s')"
    "snd (ndcToWorld s' c) = fdiv (fsub (snd c) (ty s')) (scale s')"
    by (simp_all add: ndcToWorld_def case_prod_beta)
  show ?thesis
    unfolding f t by (intro conjI anchor_one_tol assms(7))
qed

theorem zoom_anchor_within_tolerance_witness:
  "rect_width rc1024 \<noteq> 0 \<and> rect_height rc1024 \<noteq> 0 \<and>
   0 < scale init \<and> 0 < scale (exWheel 2) \<and>
   wheelFinite wheelPow rc1024 2 384 (- 100) init \<and>
   fst (ndcToWorld (exWheel 2) (exCursor 2)) \<noteq> fst (ndcToWorld init (exCursor 2)) \<and>
   \<bar>fst (ndcToWorld (exWheel 2) (exCursor 2)) - fst (ndcToWorld init (exCursor 2))\<bar>
     \<le> (\<bar>fst (ndcToWorld init (exCursor 2))\<bar> + \<bar>fst (exCursor 2)\<bar> / scale (exWheel 2)) / 2 ^ 50
        + 2 * minValue * (1 + 1 / scale (exWheel 2))"
proof -
  have h: "rect_width rc1024 \<noteq> 0" "rect_height rc1024 \<noteq> 0"
    "0 < scale init" "0 < scale (exWheel 2)"
    by (simp_all add: rc1024_def init_def view_exWheel zoom_arith)
  note f = wheelFinite_exWheel
  have ne: "fst (ndcToWorld (exWheel 2) (exCursor 2)) \<noteq> fst (ndcToWorld init (exCursor 2))"
    by (simp add: cursor_arith ndcToWorld_def [of "exWheel 2"] view_exWheel zoom_arith)
  from zoom_anchor_within_tolerance [where rc = rc1024 and s = init and mpow = wheelPow
      and clientX = 2 and clientY = 384 and deltaY = "- 100",
      folded exWheel_def exCursor_def, OF h f, THEN conjunct1] h f ne
  show ?thesis by blast
qed

subsection \<open>C4: round trip of the view transform\<close>

text \<open>
  Claim C4. For world coordinates \<open>(x, y)\<close> and a view transform with \<open>scale > 0\<close>,
  \<open>ndcToWorld (worldToNdc (x, y))\<close> returns \<open>(x, y)\<close> within floating-point tolerance, as
  the specification's sentence on the round trip has it: when no operation
  overflows, the \<open>x\<close> coordinate comes back within
  \<open>(|x| + |tx| / scale) / 2^50 + 2 * MIN_VALUE * (1 + 1 / scale)\<close> of \<open>x\<close>, and likewise
  \<open>y\<close> with \<open>ty\<close>. The difference need not be zero: in the example below, after a pan
  by 0.5 at scale 1, world coordinate \<open>0.1\<close> goes to NDC \<open>0.1 + 0.5\<close>, which rounds,
  and comes back as \<open>0.09999999999999998\<close>.
\<close>

theorem roundtrip_within_tolerance:
  assumes "0 < scale s"
    and "transformFinite (scale s) (tx s) x" and "transformFinite (scale s) (ty s) y"
  shows "\<bar>fst (ndcToWorld s (worldToNdc s (x, y))) - x\<bar>
           \<le> (\<bar>x\<bar> + \<bar>tx s\<bar> / scale s) / 2 ^ 50 + 2 * minValue * (1 + 1 / scale s) \<and>
         \<bar>snd (ndcToWorld s (worldToNdc s (x, y))) - y\<bar>
           \<le> (\<bar>y\<bar> + \<bar>ty s\<bar> / scale s) / 2 ^ 50 + 2 * minValue * (1 + 1 / scale s)"
  using roundtrip_one [OF assms(1), of x "tx s"] roundtrip_one [OF assms(1), of y "ty s"]
  by (simp add: ndcToWorld_def worldToNdc_def)

theorem roundtrip_within_tolerance_witness:
  "0 < scale exPanned \<and>
   transformFinite (scale exPanned) (tx exPanned) (rnd (1 / 10)) \<and>
   transformFinite (scale exPanned) (ty exPanned) 0 \<and>
   fst (ndcToWorld exPanned (worldToNdc exPanned (rnd (1 / 10), 0))) \<noteq> rnd (1 / 10) \<and>
   \<bar>fst (ndcToWorld exPanned (worldToNdc exPanned (rnd (1 / 10), 0))) - rnd (1 / 10)\<bar>
     \<le> (\<bar>rnd (1 / 10)\<bar> + \<bar>tx exPanned\<bar> / scale exPanned) / 2 ^ 50
        + 2 * minValue * (1 + 1 / scale exPanned)"
proof -
  have h: "0 < scale exPanned"
    "transformFinite (scale exPanned) (tx exPanned) (rnd (1 / 10))"
    "transformFinite (scale exPanned) (ty exPanned) 0"
    by (simp_all add: view_exPanned transformFinite_exPanned)
  have ne: "fst (ndcToWorld exPanned (worldToNdc exPanned (rnd (1 / 10), 0))) \<noteq> rnd (1 / 10)"
    by (simp add: ndcToWorld_def worldToNdc_def view_exPanned tenth_roundtrip)
  from roundtrip_within_tolerance [OF h, THEN conjunct1] h ne show ?thesis
    by blast
qed

subsection \<open>C5: setPoints and the selection\<close>

text \<open>
  Claim C5 is not what the code does: \<open>setPoints\<close> never writes \<open>selectedIndex\<close>, so a
  selection held before the call survives it as a bare index. With index 1 selected
  (the point with id 1), replacing the store by the two points of the pick example
  leaves index 1 selected: the next frame draws the overlay for the point with id 8,
  which was never selected, and \<open>centerOnSelected(false)\<close> centres the view on it.
  After replacing the store by a single point, \<open>centerOnSelected\<close> throws a TypeError:
  \<open>draw\<close> checks the index against the point count, \<open>centerOnSelected\<close> does not.
\<close>

theorem setPoints_leaves_stale_selection:
  "selectedIndex exSelected = 1 \<and>
   selectedIndex (setPoints pickPoints exSelected) = 1 \<and>
   highlightCall \<in> set (fst (draw (\<lambda>x. 1) (setPoints pickPoints exSelected))) \<and>
   DrawArrays 1 1 \<in> set (fst (draw (\<lambda>x. 1) (setPoints pickPoints exSelected))) \<and>
   (\<exists>s'. centerOnSelected False 0 (setPoints pickPoints exSelected) = Inr (s', None) \<and>
      tx s' = - rnd (9 / 10) \<and> ty s' = - rnd (9 / 10)) \<and>
   centerOnSelected False 0 (setPoints [\<lparr>pt_id = 7, pt_x = 0, pt_y = 0\<rparr>] exSelected)
     = Inl TypeError"
proof -
  have sel: "selectedIndex (setPoints pts exSelected) = 1" for pts
    by (simp add: selectedIndex_setPoints selectedIndex_exSelected)
  have frame: "highlightCall \<in> set (fst (draw (\<lambda>x. 1) (setPoints pickPoints exSelected)))"
    "DrawArrays 1 1 \<in> set (fst (draw (\<lambda>x. 1) (setPoints pickPoints exSelected)))"
    by (simp_all add: sel highlight_in_draw drawArrays_in_draw points_setPoints pickPoints_def)
  have centre: "\<exists>s'. centerOnSelected False 0 (setPoints pickPoints exSelected) = Inr (s', None) \<and>
      tx s' = - rnd (9 / 10) \<and> ty s' = - rnd (9 / 10)"
    by (simp add: centerOnSelected_def sel points_setPoints pickPoints_def view_exSelected
        Let_def invalidate_def nine_tenths_arith)
  have stale: "centerOnSelected False 0 (setPoints [\<lparr>pt_id = 7, pt_x = 0, pt_y = 0\<rparr>] exSelected)
      = Inl TypeError"
    by (rule centerOnSelected_stale) (simp add: sel points_setPoints)
  from selectedIndex_exSelected sel frame centre stale show ?thesis
    by blast
qed

subsection \<open>C6: the packed buffer and the id map\<close>

text \<open>
  Claim C6, as stated, fails where ids repeat: after \<open>setPoints\<close> with the
  duplicate-id example the store holds two points, and no id is mapped to index 0.
\<close>

theorem id_map_onto_counterexample:
  "reachable exStore \<and> length (points exStore) = 2 \<and>
   \<not> (\<exists>k. idToIndex exStore k = Some 0)"
proof -
  have "idToIndex exStore k \<noteq> Some 0" for k
    by (simp add: reachable_lookup [OF reachable_exStore] lastOcc_def points_exStore twoPoints_def)
       (metis One_nat_def lessI nth_Cons_0 nth_Cons_Suc point.select_convs(1) zero_less_one)
  with reachable_exStore show ?thesis
    by (simp add: points_exStore twoPoints_def)
qed

text \<open>
  Claim C6, amended. In every reachable state, hence after every \<open>setPoints\<close> or
  \<open>appendPoints\<close> call, the packed buffer has twice as many entries as there are
  points, the ids the map holds are exactly the ids of the stored points, and every
  mapped value is a valid current index; when the ids of the stored points are
  pairwise distinct, the mapped values are exactly the indices \<open>[0, count)\<close>.
\<close>

theorem store_buffer_and_id_map:
  assumes "reachable s"
  shows "length (data s) = 2 * length (points s) \<and>
         dom (idToIndex s) = pt_id ` set (points s) \<and>
         ran (idToIndex s) \<subseteq> {0..<length (points s)} \<and>
         (distinct (map pt_id (points s)) \<longrightarrow> ran (idToIndex s) = {0..<length (points s)})"
proof (intro conjI impI)
  let ?ps = "points s" and ?m = "idToIndex s"
  note lk = reachable_lookup [OF assms]
  from reachable_storeInv [OF assms] show "length (data s) = 2 * length ?ps"
    by (simp add: storeInv_def)
  show ran: "ran ?m \<subseteq> {0..<length ?ps}"
    by (auto simp: ran_def lk lastOcc_def)
  show "dom ?m = pt_id ` set ?ps"
  proof
    show "dom ?m \<subseteq> pt_id ` set ?ps"
      by (auto simp: dom_def lk lastOcc_def)
    show "pt_id ` set ?ps \<subseteq> dom ?m"
    proof
      fix k assume "k \<in> pt_id ` set ?ps"
      then obtain i0 where i0: "i0 < length ?ps" "pt_id (?ps ! i0) = k"
        by (auto simp: in_set_conv_nth)
      define i where "i = (GREATEST j. j < length ?ps \<and> pt_id (?ps ! j) = k)"
      have "i < length ?ps \<and> pt_id (?ps ! i) = k"
        unfolding i_def
        by (rule GreatestI_nat [where b = "length ?ps"]) (use i0 in auto)
      moreover have "j \<le> i" if "j < length ?ps" "pt_id (?ps ! j) = k" for j
        unfolding i_def
        by (rule Greatest_le_nat [where b = "length ?ps"]) (use that in auto)
      ultimately have "lastOcc ?ps (length ?ps) k i"
        by (fastforce simp: lastOcc_def)
      then show "k \<in> dom ?m" by (auto simp: lk [symmetric])
    qed
  qed
  assume d: "distinct (map pt_id ?ps)"
  have "i \<in> ran ?m" if "i < length ?ps" for i
  proof -
    have "lastOcc ?ps (length ?ps) (pt_id (?ps ! i)) i"
      unfolding lastOcc_def
    proof (intro conjI allI impI)
      fix j assume j: "i < j \<and> j < length ?ps"
      show "pt_id (?ps ! j) \<noteq> pt_id (?ps ! i)"
      proof
        assume "pt_id (?ps ! j) = pt_id (?ps ! i)"
        with j that have "map pt_id ?ps ! j = map pt_id ?ps ! i" by simp
        moreover from d have "(map pt_id ?ps ! j = map pt_id ?ps ! i) = (j = i)"
          by (rule nth_eq_iff_index_eq) (use j that in auto)
        ultimately show False using j by simp
      qed
    qed (use that in auto)
    then show ?thesis by (auto simp: ran_def lk [symmetric])
  qed
  with ran show "ran ?m = {0..<length ?ps}" by auto
qed

theorem store_buffer_and_id_map_witness:
  "reachable (setPoints pickPoints init) \<and>
   distinct (map pt_id (points (setPoints pickPoints init))) \<and>
   length (data (setPoints pickPoints init)) = 4 \<and>
   dom (idToIndex (setPoints pickPoints init)) = {7, 8} \<and>
   ran (idToIndex (setPoints pickPoints init)) = {0..<2}"
proof -
  have r: "reachable (setPoints pickPoints init)"
    by (rule r_setPoints [OF r_init])
  from store_buffer_and_id_map [OF r] r show ?thesis
    by (simp add: points_setPoints pickPoints_def numeral_2_eq_2)
qed

subsection \<open>C7: a repeated id resolves to its most recent occurrence\<close>



subsection \<open>C8: centerOnSelected and its target\<close>

text \<open>
  Claim C8 is not what the eased path does. With \<open>tx = 0.5\<close>, scale 1 and the selected
  point at \<open>x = 0.1\<close> the target is \<open>-0.1\<close>. \<open>centerOnSelected(false)\<close> assigns the
  target, so the immediate path ends exactly on it. On the eased path the frame at
  150 ms has \<open>t = 1\<close> and \<open>ease = 1\<close> and requests no further frame, and it leaves
  \<open>tx = 0.5 + (-0.1 - 0.5) * 1 = -0.09999999999999998\<close>, which is not the target: the
  last frame interpolates where it would have to assign.
\<close>

theorem eased_path_misses_target:
  "selectedIndex exTenth = 0 \<and>
   (\<exists>s'. centerOnSelected False 0 exTenth = Inr (s', None) \<and> tx s' = targetTx exAnim) \<and>
   centerOnSelected True 0 exTenth = Inr (exTenth, Some exAnim) \<and>
   fdiv (fsub 150 (t0 exAnim)) 150 = 1 \<and>
   \<not> snd (animStep exAnim 150 exTenth) \<and>
   tx (fst (animStep exAnim 150 exTenth)) \<noteq> targetTx exAnim"
proof -
  have i: "\<exists>s'. centerOnSelected False 0 exTenth = Inr (s', None) \<and> tx s' = targetTx exAnim"
    by (simp add: centerOnSelected_def selectedIndex_exTenth points_exTenth view_exTenth
        exAnim_def tenth_arith Let_def invalidate_def)
  have c: "centerOnSelected True 0 exTenth = Inr (exTenth, Some exAnim)"
    by (simp add: centerOnSelected_def selectedIndex_exTenth points_exTenth view_exTenth
        exAnim_def tenth_arith Let_def)
  have d: "fdiv (fsub 150 (t0 exAnim)) 150 = 1"
    by (simp add: exAnim_def tenth_arith)
  then have d': "1 \<le> fdiv (fsub 150 (t0 exAnim)) 150" by simp
  have "tx (fst (animStep exAnim 150 exTenth)) \<noteq> targetTx exAnim"
    unfolding animStep_done(2) [OF d'] by (simp add: exAnim_def tenth_arith)
  with i c d animStep_done(1) [OF d', of exTenth] selectedIndex_exTenth show ?thesis
    by blast
qed

subsection \<open>C9: an unknown id selects nothing\<close>

text \<open>
  Claim C9. After \<open>setSelectedId\<close> with \<open>null\<close> or with an id that the id map does
  not hold, the selection index is \<open>-1\<close>: \<open>centerOnSelected\<close> returns the state
  unchanged and starts no animation, and a frame has no overlay, its only
  \<open>drawArrays\<close> call being the base pass over all points.
\<close>

theorem unknown_id_selects_nothing:
  assumes "ido = None \<or> (\<exists>k. ido = Some k \<and> idToIndex s k = None)"
  shows "selectedIndex (setSelectedId ido s) = - 1 \<and>
         centerOnSelected smooth now (setSelectedId ido s) = Inr (setSelectedId ido s, None) \<and>
         highlightCall \<notin> set (fst (draw msqrt (setSelectedId ido s))) \<and>
         (\<forall>first n. DrawArrays first n \<in> set (fst (draw msqrt (setSelectedId ido s))) \<longrightarrow>
            first = 0 \<and> n = int (length (points s)))"
proof -
  from assms have sel: "selectedIndex (setSelectedId ido s) = - 1"
    by (auto simp: setSelectedId_def invalidate_def)
  moreover from sel
  have "centerOnSelected smooth now (setSelectedId ido s) = Inr (setSelectedId ido s, None)"
    by (simp add: centerOnSelected_def)
  moreover from sel have "highlightCall \<notin> set (fst (draw msqrt (setSelectedId ido s)))"
    by (simp add: highlight_in_draw)
  moreover from sel
  have "\<forall>first n. DrawArrays first n \<in> set (fst (draw msqrt (setSelectedId ido s))) \<longrightarrow>
          first = 0 \<and> n = int (length (points s))"
    by (simp add: drawArrays_in_draw)
  ultimately show ?thesis by blast
qed

theorem unknown_id_selects_nothing_witness:
  "idToIndex exSelected 5 = None \<and>
   selectedIndex exSelected = 1 \<and>
   selectedIndex (setSelectedId (Some 5) exSelected) = - 1 \<and>
   centerOnSelected True 0 (setSelectedId (Some 5) exSelected)
     = Inr (setSelectedId (Some 5) exSelected, None) \<and>
   highlightCall \<notin> set (fst (draw (\<lambda>x. 1) (setSelectedId (Some 5) exSelected)))"
proof -
  have n: "idToIndex exSelected 5 = None"
    by (simp add: exSelected_def lookup_exStore_5)
  then have h: "Some 5 = None \<or> (\<exists>k. Some 5 = Some k \<and> idToIndex exSelected k = None)"
    by simp
  from unknown_id_selects_nothing [OF h, of True 0 "\<lambda>x. 1"] n selectedIndex_exSelected
  show ?thesis by simp
qed

subsection \<open>C10: the overlay is drawn only for an index inside the sequence\<close>



end
